theory Spec2Isabelle
  imports Main "HOL-Library.Sublist"
begin

section \<open>Strings, errors and constants\<close>

text \<open>
  A Python \<open>str\<close> is a sequence of code points. A \<open>char\<close> of HOL has 256 values; here the
  char with number \<open>n\<close> stands for the code point U+00\<open>n\<close>, so a \<open>string\<close> is a Python
  string over U+0000 .. U+00FF and \<open>length\<close> counts code points, as \<open>len\<close> does.

  The program raises \<open>ValueError\<close> with a message; the datetime library raises
  \<open>ValueError\<close> and \<open>OverflowError\<close>. An exception is the \<open>Inl\<close> of a sum.
\<close>

datatype error = ValueError string | OverflowError string

definition PHONE_LENGTH :: nat where
  "PHONE_LENGTH = 10"

definition DATE_FORMAT :: string where
  "DATE_FORMAT = ''%d.%m.%Y''"

definition WEEKEND_DAYS :: int where
  "WEEKEND_DAYS = 5"

definition DAYS_IN_WEEK :: int where
  "DAYS_IN_WEEK = 7"

definition chr_in :: "char \<Rightarrow> char \<Rightarrow> char \<Rightarrow> bool" where
  "chr_in lo hi c \<longleftrightarrow> (of_char lo :: nat) \<le> of_char c \<and> (of_char c :: nat) \<le> of_char hi"

definition ascii_digit :: "char \<Rightarrow> bool" where
  "ascii_digit c \<longleftrightarrow> chr_in (CHR ''0'') (CHR ''9'') c"

text \<open>
  \<open>str.isdigit\<close> is true of a non-empty string whose characters all have the Unicode
  property Numeric_Type=Digit or Decimal. Up to U+00FF these are the ten ASCII digits
  and the superscripts U+00B2, U+00B3 and U+00B9.
\<close>

definition isdigit_char :: "char \<Rightarrow> bool" where
  "isdigit_char c \<longleftrightarrow>
     ascii_digit c \<or> c = CHR 0xB2 \<or> c = CHR 0xB3 \<or> c = CHR 0xB9"

definition str_isdigit :: "string \<Rightarrow> bool" where
  "str_isdigit s \<longleftrightarrow> s \<noteq> [] \<and> list_all isdigit_char s"

definition digit_val :: "char \<Rightarrow> int" where
  "digit_val c = of_char c - 48"

definition digit_char :: "int \<Rightarrow> char" where
  "digit_char k = char_of (48 + k)"

text \<open>\<open>str(n)\<close> of an integer, used in a message of the library.\<close>

function str_nat :: "nat \<Rightarrow> string" where
  "str_nat n =
     (if n < 10 then [digit_char (int n)]
      else str_nat (n div 10) @ [digit_char (int (n mod 10))])"
  by pat_completeness auto
termination
  by (relation "measure id") auto

declare str_nat.simps [simp del]

definition str_int :: "int \<Rightarrow> string" where
  "str_int i = (if i < 0 then CHR ''-'' # str_nat (nat (- i)) else str_nat (nat i))"

text \<open>
  \<open>int(s)\<close> on the tokens the date pattern lets through: decimal digits, after an
  optional leading space (\<open>int\<close> strips white space).
\<close>

definition py_int :: "string \<Rightarrow> int" where
  "py_int s = foldl (\<lambda>a c. 10 * a + digit_val c) 0 (dropWhile (\<lambda>c. c = CHR '' '') s)"

section \<open>The library's dates\<close>

text \<open>
  \<open>datetime.date\<close>: a year, a month and a day. The constructor checks the fields
  (years 1 .. 9999) and raises \<open>ValueError\<close>; the texts of the library's errors are those
  of CPython 3.12 and no statement below depends on them.
\<close>

record date =
  year :: int
  month :: int
  day :: int

definition MINYEAR :: int where
  "MINYEAR = 1"

definition MAXYEAR :: int where
  "MAXYEAR = 9999"

definition is_leap :: "int \<Rightarrow> bool" where
  "is_leap y \<longleftrightarrow> y mod 4 = 0 \<and> (y mod 100 \<noteq> 0 \<or> y mod 400 = 0)"

definition DAYS_IN_MONTH :: "int list" where
  "DAYS_IN_MONTH = [-1, 31, 28, 31, 30, 31, 30, 31, 31, 30, 31, 30, 31]"

definition DAYS_BEFORE_MONTH :: "int list" where
  "DAYS_BEFORE_MONTH = [-1, 0, 31, 59, 90, 120, 151, 181, 212, 243, 273, 304, 334]"

definition days_in_month :: "int \<Rightarrow> int \<Rightarrow> int" where
  "days_in_month y m = (if m = 2 \<and> is_leap y then 29 else DAYS_IN_MONTH ! nat m)"

definition days_before_month :: "int \<Rightarrow> int \<Rightarrow> int" where
  "days_before_month y m =
     DAYS_BEFORE_MONTH ! nat m + (if m > 2 \<and> is_leap y then 1 else 0)"

definition days_before_year :: "int \<Rightarrow> int" where
  "days_before_year y =
     (let y1 = y - 1 in y1 * 365 + y1 div 4 - y1 div 100 + y1 div 400)"

definition valid_date :: "date \<Rightarrow> bool" where
  "valid_date d \<longleftrightarrow>
     MINYEAR \<le> year d \<and> year d \<le> MAXYEAR \<and> 1 \<le> month d \<and> month d \<le> 12 \<and>
     1 \<le> day d \<and> day d \<le> days_in_month (year d) (month d)"

text \<open>The month and the day of a date exist in its year, whatever the year is.\<close>

definition valid_cal :: "date \<Rightarrow> bool" where
  "valid_cal d \<longleftrightarrow>
     1 \<le> month d \<and> month d \<le> 12 \<and> 1 \<le> day d \<and> day d \<le> days_in_month (year d) (month d)"

definition new_date :: "int \<Rightarrow> int \<Rightarrow> int \<Rightarrow> error + date" where
  "new_date y m d =
     (if \<not> (MINYEAR \<le> y \<and> y \<le> MAXYEAR)
        then Inl (ValueError (''year '' @ str_int y @ '' is out of range''))
      else if \<not> (1 \<le> m \<and> m \<le> 12)
        then Inl (ValueError ''month must be in 1..12'')
      else if \<not> (1 \<le> d \<and> d \<le> days_in_month y m)
        then Inl (ValueError ''day is out of range for month'')
      else Inr \<lparr>year = y, month = m, day = d\<rparr>)"

text \<open>\<open>d.replace(year=y)\<close> builds a new date from the new year and the old month and day.\<close>

definition date_replace_year :: "date \<Rightarrow> int \<Rightarrow> error + date" where
  "date_replace_year d y = new_date y (month d) (day d)"

definition toordinal :: "date \<Rightarrow> int" where
  "toordinal d =
     days_before_year (year d) + days_before_month (year d) (month d) + day d"

definition weekday :: "date \<Rightarrow> int" where
  "weekday d = (toordinal d + 6) mod 7"

text \<open>\<open>a < b\<close> on dates compares year, month and day in this order.\<close>

definition date_less :: "date \<Rightarrow> date \<Rightarrow> bool" where
  "date_less a b \<longleftrightarrow>
     year a < year b \<or>
     (year a = year b \<and> (month a < month b \<or> (month a = month b \<and> day a < day b)))"

text \<open>\<open>(a - b).days\<close>.\<close>

definition days_between :: "date \<Rightarrow> date \<Rightarrow> int" where
  "days_between a b = toordinal a - toordinal b"

text \<open>
  \<open>d + timedelta(days=k)\<close> is the date whose ordinal is \<open>k\<close> more, and \<open>OverflowError\<close>
  outside the years 1 .. 9999. The model walks the calendar one day at a time; lemma
  \<open>toordinal_date_add_days\<close> below shows that this is the date with that ordinal.
\<close>

definition next_day :: "date \<Rightarrow> date" where
  "next_day d =
     (if day d < days_in_month (year d) (month d) then d\<lparr>day := day d + 1\<rparr>
      else if month d < 12 then \<lparr>year = year d, month = month d + 1, day = 1\<rparr>
      else \<lparr>year = year d + 1, month = 1, day = 1\<rparr>)"

definition prev_day :: "date \<Rightarrow> date" where
  "prev_day d =
     (if 1 < day d then d\<lparr>day := day d - 1\<rparr>
      else if 1 < month d
        then \<lparr>year = year d, month = month d - 1, day = days_in_month (year d) (month d - 1)\<rparr>
      else \<lparr>year = year d - 1, month = 12, day = 31\<rparr>)"

fun days_later :: "nat \<Rightarrow> date \<Rightarrow> date" where
  "days_later 0 d = d"
| "days_later (Suc n) d = days_later n (next_day d)"

fun days_earlier :: "nat \<Rightarrow> date \<Rightarrow> date" where
  "days_earlier 0 d = d"
| "days_earlier (Suc n) d = days_earlier n (prev_day d)"

definition date_add_days :: "date \<Rightarrow> int \<Rightarrow> error + date" where
  "date_add_days d k =
     (let r = (if 0 \<le> k then days_later (nat k) d else days_earlier (nat (- k)) d)
      in if MINYEAR \<le> year r \<and> year r \<le> MAXYEAR then Inr r
         else Inl (OverflowError ''date value out of range''))"

text \<open>
  \<open>strftime\<close> with the format \<open>%d.%m.%Y\<close>: day and month as two digits, the year as four
  digits (0001 .. 9999, as the library's documentation gives it).
\<close>

definition pad2 :: "int \<Rightarrow> string" where
  "pad2 n = [digit_char (n div 10), digit_char (n mod 10)]"

definition pad4 :: "int \<Rightarrow> string" where
  "pad4 n =
     [digit_char (n div 1000), digit_char (n div 100 mod 10),
      digit_char (n div 10 mod 10), digit_char (n mod 10)]"

definition strftime :: "date \<Rightarrow> string" where
  "strftime d = pad2 (day d) @ ''.'' @ pad2 (month d) @ ''.'' @ pad4 (year d)"

text \<open>
  \<open>datetime.strptime(s, "%d.%m.%Y")\<close> matches \<open>s\<close> from its start against the regular
  expression
  \<^verbatim>\<open>(3[0-1]|[1-2]\d|0[1-9]|[1-9]| [1-9])\.(1[0-2]|0[1-9]|[1-9])\.(\d\d\d\d)\<close>,
  raises \<open>ValueError\<close> when there is no match or when text remains after the match, and
  builds the date from the three numbers, which raises \<open>ValueError\<close> for a date that
  does not exist. \<open>cls\<close> matches a sequence of character classes and \<open>then_dot\<close> the
  dot after a group; a group's alternatives are tried in the order written, so the list
  of all matches is in the order in which the backtracking matcher finds them and the
  first one is the match. Up to U+00FF the class \<open>\d\<close> is the ASCII digits. The texts
  of the parser's errors are abridged: \<open>Birthday\<close> replaces them.
\<close>

fun cls :: "(char \<Rightarrow> bool) list \<Rightarrow> string \<Rightarrow> (string \<times> string) list" where
  "cls [] s = [([], s)]"
| "cls (p # ps) [] = []"
| "cls (p # ps) (c # s) = (if p c then map (\<lambda>(t, r). (c # t, r)) (cls ps s) else [])"

definition re_d :: "string \<Rightarrow> (string \<times> string) list" where
  "re_d s =
     cls [(=) CHR ''3'', chr_in CHR ''0'' CHR ''1''] s @
     cls [chr_in CHR ''1'' CHR ''2'', ascii_digit] s @
     cls [(=) CHR ''0'', chr_in CHR ''1'' CHR ''9''] s @
     cls [chr_in CHR ''1'' CHR ''9''] s @
     cls [(=) CHR '' '', chr_in CHR ''1'' CHR ''9''] s"

definition re_m :: "string \<Rightarrow> (string \<times> string) list" where
  "re_m s =
     cls [(=) CHR ''1'', chr_in CHR ''0'' CHR ''2''] s @
     cls [(=) CHR ''0'', chr_in CHR ''1'' CHR ''9''] s @
     cls [chr_in CHR ''1'' CHR ''9''] s"

definition re_Y :: "string \<Rightarrow> (string \<times> string) list" where
  "re_Y s = cls [ascii_digit, ascii_digit, ascii_digit, ascii_digit] s"

definition re_dot :: "string \<Rightarrow> (string \<times> string) list" where
  "re_dot s = cls [(=) CHR ''.''] s"

definition then_dot :: "(string \<times> string) list \<Rightarrow> (string \<times> string) list" where
  "then_dot ms = [(t, r2). (t, r1) \<leftarrow> ms, (dot, r2) \<leftarrow> re_dot r1]"

definition format_regex_matches :: "string \<Rightarrow> ((string \<times> string \<times> string) \<times> string) list" where
  "format_regex_matches s =
     [((d, m, y), r5).
        (d, r2) \<leftarrow> then_dot (re_d s), (m, r4) \<leftarrow> then_dot (re_m r2), (y, r5) \<leftarrow> re_Y r4]"

definition strptime :: "string \<Rightarrow> error + date" where
  "strptime data_string =
     (case format_regex_matches data_string of
        [] \<Rightarrow> Inl (ValueError ''time data does not match format'')
      | ((d, m, y), rest) # others \<Rightarrow>
          if rest \<noteq> [] then Inl (ValueError (''unconverted data remains: '' @ rest))
          else new_date (py_int y) (py_int m) (py_int d))"

text \<open>
  \<open>date.today()\<close> reads the system clock. The clock is the part of the environment that
  the program reads: the local date and the time of day.
\<close>

record clock =
  clock_date :: date
  clock_seconds :: nat

definition date_today :: "clock \<Rightarrow> date" where
  "date_today c = clock_date c"

section \<open>Fields\<close>

text \<open>
  \<open>Phone.__init__\<close> validates and then stores the string; a \<open>Phone\<close> is modelled by its
  value. The argument is a string, so the \<open>isinstance\<close> test never fails.
\<close>

definition validate_phone :: "string \<Rightarrow> error + unit" where
  "validate_phone phone_number =
     (if \<not> str_isdigit phone_number then Inl (ValueError ''Phone must contain only digits.'')
      else if length phone_number \<noteq> PHONE_LENGTH
        then Inl (ValueError (''Phone must be exactly '' @ str_nat PHONE_LENGTH @ '' digits''))
      else Inr ())"

definition Phone :: "string \<Rightarrow> error + string" where
  "Phone phone_number =
     (case validate_phone phone_number of Inl e \<Rightarrow> Inl e | Inr u \<Rightarrow> Inr phone_number)"

text \<open>\<open>Birthday.__init__\<close> replaces any \<open>ValueError\<close> of the parser by its own.\<close>

definition Birthday :: "string \<Rightarrow> error + date" where
  "Birthday v =
     (case strptime v of
        Inl (ValueError m) \<Rightarrow> Inl (ValueError (''Invalid date format. Use '' @ DATE_FORMAT))
      | Inl e \<Rightarrow> Inl e
      | Inr d \<Rightarrow> Inr d)"

section \<open>Record\<close>

text \<open>
  A method of the mutable object takes the record and returns its outcome (the raised
  error or the returned value) together with the record afterwards.
\<close>

record Record =
  name :: string
  phones :: "string list"
  birthday :: "date option"

definition Record_init :: "string \<Rightarrow> Record" where
  "Record_init n = \<lparr>name = n, phones = [], birthday = None\<rparr>"

fun find_phone_loop :: "string list \<Rightarrow> string \<Rightarrow> string option" where
  "find_phone_loop [] phone = None"
| "find_phone_loop (phone_obj # rest) phone =
     (if phone_obj = phone then Some phone_obj else find_phone_loop rest phone)"

definition find_phone :: "string \<Rightarrow> Record \<Rightarrow> string option" where
  "find_phone phone r = find_phone_loop (phones r) phone"

definition add_phone :: "string \<Rightarrow> Record \<Rightarrow> (error + unit) \<times> Record" where
  "add_phone phone_raw r =
     (case find_phone phone_raw r of
        Some found \<Rightarrow> (Inl (ValueError ''This phone is already added.''), r)
      | None \<Rightarrow>
          (case Phone phone_raw of
             Inl e \<Rightarrow> (Inl e, r)
           | Inr new_phone \<Rightarrow> (Inr (), r\<lparr>phones := phones r @ [new_phone]\<rparr>)))"

text \<open>\<open>self.phones.pop(index)\<close> removes the element at \<open>index\<close>.\<close>

definition list_pop :: "nat \<Rightarrow> 'a list \<Rightarrow> 'a list" where
  "list_pop i xs = take i xs @ drop (Suc i) xs"

fun remove_phone_loop :: "nat \<Rightarrow> string list \<Rightarrow> string \<Rightarrow> Record \<Rightarrow> bool \<times> Record" where
  "remove_phone_loop index [] phone_to_delete r = (False, r)"
| "remove_phone_loop index (phone # rest) phone_to_delete r =
     (if phone = phone_to_delete then (True, r\<lparr>phones := list_pop index (phones r)\<rparr>)
      else remove_phone_loop (Suc index) rest phone_to_delete r)"

definition remove_phone :: "string \<Rightarrow> Record \<Rightarrow> bool \<times> Record" where
  "remove_phone phone_to_delete r = remove_phone_loop 0 (phones r) phone_to_delete r"

fun edit_phone_loop ::
  "nat \<Rightarrow> string list \<Rightarrow> string \<Rightarrow> string \<Rightarrow> Record \<Rightarrow> (error + bool) \<times> Record" where
  "edit_phone_loop index [] old_phone new_phone r = (Inr False, r)"
| "edit_phone_loop index (phone # rest) old_phone new_phone r =
     (if phone = old_phone then
        (case Phone new_phone of
           Inl e \<Rightarrow> (Inl e, r)
         | Inr p \<Rightarrow> (Inr True, r\<lparr>phones := (phones r)[index := p]\<rparr>))
      else edit_phone_loop (Suc index) rest old_phone new_phone r)"

definition edit_phone :: "string \<Rightarrow> string \<Rightarrow> Record \<Rightarrow> (error + bool) \<times> Record" where
  "edit_phone old_phone new_phone r = edit_phone_loop 0 (phones r) old_phone new_phone r"

definition add_birthday :: "string \<Rightarrow> Record \<Rightarrow> (error + unit) \<times> Record" where
  "add_birthday b r =
     (case Birthday b of
        Inl e \<Rightarrow> (Inl e, r)
      | Inr d \<Rightarrow> (Inr (), r\<lparr>birthday := Some d\<rparr>))"

text \<open>A sequence of operations on one record; a raised error leaves the object as it is.\<close>

datatype record_op =
  AddPhone string | EditPhone string string | RemovePhone string | AddBirthday string

fun apply_op :: "record_op \<Rightarrow> Record \<Rightarrow> Record" where
  "apply_op (AddPhone p) r = snd (add_phone p r)"
| "apply_op (EditPhone old new) r = snd (edit_phone old new r)"
| "apply_op (RemovePhone p) r = snd (remove_phone p r)"
| "apply_op (AddBirthday b) r = snd (add_birthday b r)"

fun apply_ops :: "record_op list \<Rightarrow> Record \<Rightarrow> Record" where
  "apply_ops [] r = r"
| "apply_ops (op # ops) r = apply_ops ops (apply_op op r)"

section \<open>AddressBook\<close>

text \<open>
  The \<open>data\<close> of the \<open>UserDict\<close> is a Python dict: its items in insertion order, one
  per key. Storing under a key that is present replaces the value where it stands;
  a new key goes to the end.
\<close>

type_synonym AddressBook = "(string \<times> Record) list"

fun dict_setitem :: "'k \<Rightarrow> 'v \<Rightarrow> ('k \<times> 'v) list \<Rightarrow> ('k \<times> 'v) list" where
  "dict_setitem k v [] = [(k, v)]"
| "dict_setitem k v ((k', v') # items) =
     (if k' = k then (k, v) # items else (k', v') # dict_setitem k v items)"

definition add_record :: "Record \<Rightarrow> AddressBook \<Rightarrow> AddressBook" where
  "add_record record book = dict_setitem (name record) record book"

definition find_record :: "string \<Rightarrow> AddressBook \<Rightarrow> Record option" where
  "find_record n book = map_of book n"

definition delete :: "string \<Rightarrow> AddressBook \<Rightarrow> bool \<times> AddressBook" where
  "delete n book =
     (if n \<in> fst ` set book then (True, filter (\<lambda>(k, v). k \<noteq> n) book) else (False, book))"

text \<open>An element of the returned list: the dict with the keys name and congratulation_date.\<close>

record upcoming =
  entry_name :: string
  congratulation_date :: string

fun upcoming_loop :: "date \<Rightarrow> (string \<times> Record) list \<Rightarrow> upcoming list \<Rightarrow> error + upcoming list" where
  "upcoming_loop today [] upcoming_birthdays = Inr upcoming_birthdays"
| "upcoming_loop today ((n, record) # items) upcoming_birthdays =
     (case birthday record of
        None \<Rightarrow> upcoming_loop today items upcoming_birthdays
      | Some b \<Rightarrow>
          (case date_replace_year b (year today) of
             Inl e \<Rightarrow> Inl e
           | Inr this_year \<Rightarrow>
               (case (if date_less this_year today then date_replace_year b (year today + 1)
                      else Inr this_year) of
                  Inl e \<Rightarrow> Inl e
                | Inr birthday_this_year \<Rightarrow>
                    let days_until_birthday = days_between birthday_this_year today in
                    if 0 \<le> days_until_birthday \<and> days_until_birthday \<le> DAYS_IN_WEEK then
                      (case (if weekday birthday_this_year \<ge> WEEKEND_DAYS
                             then date_add_days birthday_this_year
                                    (DAYS_IN_WEEK - weekday birthday_this_year)
                             else Inr birthday_this_year) of
                         Inl e \<Rightarrow> Inl e
                       | Inr congratulation \<Rightarrow>
                           upcoming_loop today items
                             (upcoming_birthdays @
                              [\<lparr>entry_name = n, congratulation_date = strftime congratulation\<rparr>]))
                    else upcoming_loop today items upcoming_birthdays)))"

definition get_upcoming_birthdays :: "clock \<Rightarrow> AddressBook \<Rightarrow> error + upcoming list" where
  "get_upcoming_birthdays c book = upcoming_loop (date_today c) book []"

section \<open>The words of the specification\<close>





text \<open>
  The occurrence of a birthday: the birthday in the year of today, moved to the next year
  when that day is strictly before today; the year it falls in; and whether the dates that
  the projection goes through exist.
\<close>

definition occurrence :: "date \<Rightarrow> date \<Rightarrow> date" where
  "occurrence today b =
     (if date_less (b\<lparr>year := year today\<rparr>) today then b\<lparr>year := year today + 1\<rparr>
      else b\<lparr>year := year today\<rparr>)"

definition projected_year :: "date \<Rightarrow> date \<Rightarrow> int" where
  "projected_year today b =
     (if date_less (b\<lparr>year := year today\<rparr>) today then year today + 1 else year today)"

definition projectable :: "date \<Rightarrow> date \<Rightarrow> bool" where
  "projectable today b \<longleftrightarrow>
     valid_date (b\<lparr>year := year today\<rparr>) \<and>
     (date_less (b\<lparr>year := year today\<rparr>) today \<longrightarrow> valid_date (b\<lparr>year := year today + 1\<rparr>))"

text \<open>
  The congratulation date of an occurrence, the window of seven days, and what one item
  of the directory contributes to the result.
\<close>

definition congratulation :: "date \<Rightarrow> date" where
  "congratulation occ =
     (if 5 \<le> weekday occ then days_later (nat (7 - weekday occ)) occ else occ)"

definition in_window :: "date \<Rightarrow> date \<Rightarrow> bool" where
  "in_window today b \<longleftrightarrow>
     0 \<le> days_between (occurrence today b) today \<and> days_between (occurrence today b) today \<le> 7"

definition emitted :: "date \<Rightarrow> string \<times> Record \<Rightarrow> upcoming list" where
  "emitted today item =
     (case birthday (snd item) of
        None \<Rightarrow> []
      | Some b \<Rightarrow>
          if in_window today b
          then [\<lparr>entry_name = fst item,
                 congratulation_date = strftime (congratulation (occurrence today b))\<rparr>]
          else [])"

section \<open>Properties of the calendar\<close>

lemma month_cases:
  "1 \<le> m \<Longrightarrow> m \<le> 12 \<Longrightarrow>
   m = 1 \<or> m = 2 \<or> m = 3 \<or> m = 4 \<or> m = 5 \<or> m = 6 \<or> m = 7 \<or> m = 8 \<or> m = 9 \<or> m = 10 \<or>
   m = 11 \<or> m = (12::int)"
  by arith

lemma days_in_month_simps:
  "days_in_month y 1 = 31" "days_in_month y 2 = (if is_leap y then 29 else 28)"
  "days_in_month y 3 = 31" "days_in_month y 4 = 30" "days_in_month y 5 = 31"
  "days_in_month y 6 = 30" "days_in_month y 7 = 31" "days_in_month y 8 = 31"
  "days_in_month y 9 = 30" "days_in_month y 10 = 31" "days_in_month y 11 = 30"
  "days_in_month y 12 = 31"
  by (simp_all add: days_in_month_def DAYS_IN_MONTH_def)

lemma days_before_month_simps:
  "days_before_month y 1 = 0" "days_before_month y 2 = 31"
  "days_before_month y 3 = (if is_leap y then 60 else 59)"
  "days_before_month y 4 = (if is_leap y then 91 else 90)"
  "days_before_month y 5 = (if is_leap y then 121 else 120)"
  "days_before_month y 6 = (if is_leap y then 152 else 151)"
  "days_before_month y 7 = (if is_leap y then 182 else 181)"
  "days_before_month y 8 = (if is_leap y then 213 else 212)"
  "days_before_month y 9 = (if is_leap y then 244 else 243)"
  "days_before_month y 10 = (if is_leap y then 274 else 273)"
  "days_before_month y 11 = (if is_leap y then 305 else 304)"
  "days_before_month y 12 = (if is_leap y then 335 else 334)"
  by (simp_all add: days_before_month_def DAYS_BEFORE_MONTH_def)

lemma days_before_month_next:
  "1 \<le> m \<Longrightarrow> m < 12 \<Longrightarrow>
   days_before_month y (m + 1) = days_before_month y m + days_in_month y m"
  using month_cases [of m]
  by (auto simp: days_in_month_simps days_before_month_simps)

lemma div_step:
  fixes y k :: int
  assumes "0 < k"
  shows "y div k = (y - 1) div k + (if y mod k = 0 then 1 else 0)"
proof -
  define q where "q = (y - 1) div k"
  define r where "r = (y - 1) mod k"
  have y: "y = k * q + (r + 1)" and r: "0 \<le> r" "r < k"
    using assms by (simp_all add: q_def r_def)
  show ?thesis
  proof (cases "r + 1 = k")
    case True
    with y have "y = k * (q + 1) + 0" by (simp add: algebra_simps)
    then have "y div k = q + 1" "y mod k = 0"
      using assms by (metis int_div_pos_eq order_refl, metis int_mod_pos_eq order_refl)
    then show ?thesis by (simp add: q_def)
  next
    case False
    with r have "r + 1 < k" "0 \<le> r + 1" by simp_all
    with y have "y div k = q" "y mod k = r + 1"
      by (metis int_div_pos_eq, metis int_mod_pos_eq)
    with r show ?thesis by (simp add: q_def)
  qed
qed

lemma mod_400_100: "(y::int) mod 400 = 0 \<Longrightarrow> y mod 100 = 0"
  by (simp add: mod_eq_0_iff_dvd) (rule dvd_trans [of 100 400], simp_all)

lemma mod_100_4: "(y::int) mod 100 = 0 \<Longrightarrow> y mod 4 = 0"
  by (simp add: mod_eq_0_iff_dvd) (rule dvd_trans [of 4 100], simp_all)

lemma leap_indicator:
  fixes i4 i100 i400 :: int
  assumes "i4 = (if p4 then 1 else 0)" "i100 = (if p100 then 1 else 0)"
    "i400 = (if p400 then 1 else 0)" "p400 \<longrightarrow> p100" "p100 \<longrightarrow> p4"
  shows "i4 - i100 + i400 = (if p4 \<and> (\<not> p100 \<or> p400) then 1 else 0)"
  using assms by (cases p4; cases p100; cases p400) simp_all

lemma days_before_year_next:
  "days_before_year (y + 1) = days_before_year y + (if is_leap y then 366 else 365)"
proof -
  define A where "A = (y - 1) div 4"
  define B where "B = (y - 1) div 100"
  define C where "C = (y - 1) div 400"
  define i4 :: int where "i4 = (if y mod 4 = 0 then 1 else 0)"
  define i100 :: int where "i100 = (if y mod 100 = 0 then 1 else 0)"
  define i400 :: int where "i400 = (if y mod 400 = 0 then 1 else 0)"
  have e: "y div 4 = A + i4" "y div 100 = B + i100" "y div 400 = C + i400"
    unfolding A_def B_def C_def i4_def i100_def i400_def
    by (rule div_step, simp)+
  have l: "i4 - i100 + i400 = (if is_leap y then 1 else 0)"
    unfolding is_leap_def
    by (rule leap_indicator [OF i4_def i100_def i400_def])
      (rule impI, erule mod_400_100, rule impI, erule mod_100_4)
  have "days_before_year (y + 1) = y * 365 + y div 4 - y div 100 + y div 400"
    by (simp add: days_before_year_def Let_def)
  also have "\<dots> = y * 365 + (A + i4) - (B + i100) + (C + i400)"
    by (simp only: e)
  also have "\<dots> = ((y - 1) * 365 + A - B + C) + (365 + (i4 - i100 + i400))"
    by (simp add: algebra_simps)
  also have "(y - 1) * 365 + A - B + C = days_before_year y"
    by (simp add: days_before_year_def Let_def A_def B_def C_def)
  finally show ?thesis
    by (simp add: l)
qed


lemma wd_pred: "((x::int) + 1 + 6) mod 7 = 4 \<Longrightarrow> (x + 6) mod 7 = 3"
  by presburger

lemma days_in_month_bounds:
  "1 \<le> m \<Longrightarrow> m \<le> 12 \<Longrightarrow> 28 \<le> days_in_month y m \<and> days_in_month y m \<le> 31"
  using month_cases [of m] by (auto simp: days_in_month_simps)

lemma toordinal_next_day:
  assumes "valid_cal d"
  shows "toordinal (next_day d) = toordinal d + 1"
proof -
  from assms have m: "1 \<le> month d" "month d \<le> 12" and dd: "day d \<le> days_in_month (year d) (month d)"
    by (simp_all add: valid_cal_def)
  show ?thesis
  proof (cases "day d < days_in_month (year d) (month d)")
    case True
    then show ?thesis by (simp add: next_day_def toordinal_def)
  next
    case False
    with dd have e: "day d = days_in_month (year d) (month d)" by simp
    show ?thesis
    proof (cases "month d < 12")
      case True
      with False e m show ?thesis
        by (simp add: next_day_def toordinal_def days_before_month_next)
    next
      case False
      with m have "month d = 12" by simp
      with e show ?thesis
        by (simp add: next_day_def toordinal_def days_before_year_next
            days_in_month_simps days_before_month_simps)
    qed
  qed
qed

lemma valid_cal_next_day: "valid_cal d \<Longrightarrow> valid_cal (next_day d)"
  using days_in_month_bounds [of "month d + 1" "year d"]
  by (auto simp: valid_cal_def next_day_def days_in_month_simps)

lemma year_next_day: "year d \<le> year (next_day d)"
  by (simp add: next_day_def)


lemma valid_date_cal: "valid_date d \<longleftrightarrow> valid_cal d \<and> 1 \<le> year d \<and> year d \<le> 9999"
  by (auto simp: valid_date_def valid_cal_def MINYEAR_def MAXYEAR_def)


lemma year_next_day_max:
  assumes "valid_date d" "9999 < year (next_day d)"
  shows "d = \<lparr>year = 9999, month = 12, day = 31\<rparr>"
proof -
  from assms(1) have v: "year d \<le> 9999" "1 \<le> month d" "month d \<le> 12" "day d \<le> days_in_month (year d) (month d)"
    by (simp_all add: valid_date_cal valid_cal_def)
  from assms(2) v have "month d = 12 \<and> year d = 9999 \<and> \<not> day d < days_in_month (year d) (month d)"
    by (auto simp: next_day_def split: if_splits)
  with v show ?thesis
    by (cases d) (simp add: days_in_month_simps)
qed

lemma weekday_range: "0 \<le> weekday d \<and> weekday d \<le> 6"
  by (simp add: weekday_def)

lemma weekday_last_days:
  "weekday \<lparr>year = 9999, month = 12, day = 31\<rparr> = 4"
  "weekday \<lparr>year = 9999, month = 12, day = 30\<rparr> = 3"
  by (simp_all add: weekday_def toordinal_def days_before_year_def days_before_month_simps is_leap_def)

lemma shift_no_overflow:
  assumes v: "valid_date d" and w: "5 \<le> weekday d"
  shows "date_add_days d (7 - weekday d) = Inr (days_later (nat (7 - weekday d)) d) \<and>
         year (days_later (nat (7 - weekday d)) d) \<le> 9999"
proof -
  from weekday_range [of d] w have k: "weekday d = 5 \<or> weekday d = 6" by arith
  from v have c: "valid_cal d" and y: "1 \<le> year d" "year d \<le> 9999" by (simp_all add: valid_date_cal)
  have n1: "year (next_day d) \<le> 9999"
  proof (rule ccontr)
    assume "\<not> year (next_day d) \<le> 9999"
    then have "d = \<lparr>year = 9999, month = 12, day = 31\<rparr>"
      using year_next_day_max [OF v] by simp
    with w weekday_last_days show False by simp
  qed
  have n2: "year (next_day (next_day d)) \<le> 9999"
  proof (rule ccontr)
    assume a: "\<not> year (next_day (next_day d)) \<le> 9999"
    have "valid_date (next_day d)"
      using valid_cal_next_day [OF c] n1 y year_next_day [of d] by (simp add: valid_date_cal)
    from year_next_day_max [OF this] a have e: "next_day d = \<lparr>year = 9999, month = 12, day = 31\<rparr>"
      by simp
    from toordinal_next_day [OF c] e have "toordinal d + 1 = toordinal \<lparr>year = 9999, month = 12, day = 31\<rparr>"
      by simp
    with weekday_last_days(1) have "(toordinal d + 1 + 6) mod 7 = 4"
      by (simp add: weekday_def)
    then have "weekday d = 3"
      unfolding weekday_def by (rule wd_pred)
    with w show False by simp
  qed
  from k show ?thesis
  proof
    assume "weekday d = 5"
    then have "nat (7 - weekday d) = Suc (Suc 0)" by simp
    with n2 y year_next_day [of d] year_next_day [of "next_day d"] \<open>weekday d = 5\<close> show ?thesis
      by (simp add: date_add_days_def Let_def MINYEAR_def MAXYEAR_def numeral_2_eq_2)
  next
    assume "weekday d = 6"
    then have "nat (7 - weekday d) = Suc 0" by simp
    with n1 y year_next_day [of d] \<open>weekday d = 6\<close> show ?thesis
      by (simp add: date_add_days_def Let_def MINYEAR_def MAXYEAR_def)
  qed
qed


lemma days_before_year_mono_nat: "days_before_year y \<le> days_before_year (y + int n)"
proof (induction n)
  case 0
  then show ?case by simp
next
  case (Suc n)
  have "days_before_year (y + int (Suc n)) = days_before_year ((y + int n) + 1)"
    by (simp add: algebra_simps)
  also have "\<dots> \<ge> days_before_year (y + int n)"
    by (simp add: days_before_year_next)
  finally show ?case using Suc.IH by simp
qed

lemma days_before_year_mono: "y \<le> z \<Longrightarrow> days_before_year y \<le> days_before_year z"
  using days_before_year_mono_nat [of y "nat (z - y)"] by simp

lemma day_of_year_bound:
  assumes "valid_cal d"
  shows "days_before_month (year d) (month d) + day d \<le> (if is_leap (year d) then 366 else 365)"
proof -
  from assms have m: "1 \<le> month d" "month d \<le> 12" and dd: "day d \<le> days_in_month (year d) (month d)"
    by (simp_all add: valid_cal_def)
  from month_cases [OF m] dd show ?thesis
    by (elim disjE) (simp_all add: days_in_month_simps days_before_month_simps split: if_splits)
qed

lemma days_before_month_nonneg:
  assumes "1 \<le> m" "m \<le> 12"
  shows "0 \<le> days_before_month y m"
  using month_cases [OF assms]
  by (elim disjE) (simp_all add: days_before_month_simps)

lemma days_before_month_mono_step:
  "1 \<le> m \<Longrightarrow> m < 12 \<Longrightarrow> days_before_month y m + days_in_month y m \<le> days_before_month y (m + int n + 1) \<or> 12 < m + int n + 1"
proof (induction n)
  case 0
  then show ?case by (simp add: days_before_month_next)
next
  case (Suc n)
  show ?case
  proof (cases "12 < m + int (Suc n) + 1")
    case True
    then show ?thesis by simp
  next
    case False
    then have b: "1 \<le> m + int n + 1" "m + int n + 1 < 12" using Suc.prems by simp_all
    from days_before_month_next [OF b, of y] days_in_month_bounds [of "m + int n + 1" y] b
    have "days_before_month y (m + int n + 1) \<le> days_before_month y (m + int n + 1 + 1)"
      by simp
    moreover have "m + int (Suc n) + 1 = m + int n + 1 + 1" by simp
    ultimately show ?thesis
      using Suc.IH [OF Suc.prems] b by simp
  qed
qed

lemma toordinal_mono:
  assumes a: "valid_cal a" and b: "valid_cal b" and l: "date_less a b"
  shows "toordinal a < toordinal b"
proof -
  from a have ma: "1 \<le> month a" "month a \<le> 12" and da: "1 \<le> day a" "day a \<le> days_in_month (year a) (month a)"
    by (simp_all add: valid_cal_def)
  from b have mb: "1 \<le> month b" "month b \<le> 12" and db: "1 \<le> day b"
    by (simp_all add: valid_cal_def)
  from l consider
    (y) "year a < year b" |
    (m) "year a = year b" "month a < month b" |
    (d) "year a = year b" "month a = month b" "day a < day b"
    by (auto simp: date_less_def)
  then show ?thesis
  proof cases
    case y
    have "toordinal a \<le> days_before_year (year a) + (if is_leap (year a) then 366 else 365)"
      using day_of_year_bound [OF a] by (simp add: toordinal_def)
    also have "\<dots> = days_before_year (year a + 1)"
      by (simp add: days_before_year_next)
    also have "\<dots> \<le> days_before_year (year b)"
      using y by (intro days_before_year_mono) simp
    also have "\<dots> < toordinal b"
      using days_before_month_nonneg [OF mb, of "year b"] db by (simp add: toordinal_def)
    finally show ?thesis .
  next
    case m
    then have lt: "month a < 12" using mb by simp
    have e: "month a + int (nat (month b - month a - 1)) + 1 = month b"
      using m by simp
    from days_before_month_mono_step [OF ma(1) lt, of "year a" "nat (month b - month a - 1)"] mb
    have "days_before_month (year a) (month a) + days_in_month (year a) (month a)
        \<le> days_before_month (year a) (month b)"
      unfolding e by simp
    with da db m show ?thesis
      by (simp add: toordinal_def)
  next
    case d
    then show ?thesis by (simp add: toordinal_def)
  qed
qed

lemma date_less_total: "date_less a b \<or> a = b \<or> date_less b a" for a b :: date
  by (cases a; cases b) (auto simp: date_less_def)


lemma date_less_iff_toordinal:
  assumes "valid_cal a" "valid_cal b"
  shows "date_less a b \<longleftrightarrow> toordinal a < toordinal b"
  using date_less_total [of a b] toordinal_mono [OF assms] toordinal_mono [OF assms(2,1)]
  by auto

section \<open>Properties of the fields\<close>

lemma str_nat_10: "str_nat 10 = ''10''"
  by (simp add: str_nat.simps digit_char_def char_of_def)

lemma Phone_eq:
  "Phone s =
     (if \<not> str_isdigit s then Inl (ValueError ''Phone must contain only digits.'')
      else if length s \<noteq> 10 then Inl (ValueError ''Phone must be exactly 10 digits'')
      else Inr s)"
  by (simp add: Phone_def validate_phone_def PHONE_LENGTH_def str_nat_10)

lemma Phone_Inr: "Phone s = Inr p \<Longrightarrow> p = s"
  by (simp add: Phone_eq split: if_splits)

lemma ascii_digit_isdigit: "ascii_digit c \<Longrightarrow> isdigit_char c"
  by (simp add: isdigit_char_def)

text \<open>
  Claim C4, as the code has it. \<open>Phone\<close> fails for every string whose length is not 10
  or that holds a character for which \<open>str.isdigit\<close> is false, and succeeds with the
  value \<open>s\<close> for every string \<open>s\<close> of exactly 10 ASCII digits.
\<close>

theorem Phone_construction:
  "(length s \<noteq> 10 \<or> (\<exists>c \<in> set s. \<not> isdigit_char c) \<longrightarrow> (\<exists>e. Phone s = Inl e)) \<and>
   (length s = 10 \<and> (\<forall>c \<in> set s. ascii_digit c) \<longrightarrow> Phone s = Inr s)"
proof (intro conjI impI)
  assume "length s \<noteq> 10 \<or> (\<exists>c \<in> set s. \<not> isdigit_char c)"
  then show "\<exists>e. Phone s = Inl e"
    by (auto simp: Phone_eq str_isdigit_def list_all_iff)
next
  assume a: "length s = 10 \<and> (\<forall>c \<in> set s. ascii_digit c)"
  then have "s \<noteq> []" by auto
  moreover from a have "list_all isdigit_char s"
    by (simp add: list_all_iff ascii_digit_isdigit)
  ultimately show "Phone s = Inr s"
    using a by (simp add: Phone_eq str_isdigit_def)
qed

theorem Phone_construction_witness:
  "(\<exists>e. Phone ''12345'' = Inl e) \<and> (\<exists>e. Phone ''12345abcde'' = Inl e) \<and>
   Phone ''0123456789'' = Inr ''0123456789''"
proof -
  have a: "length ''12345'' \<noteq> 10 \<or> (\<exists>c \<in> set ''12345''. \<not> isdigit_char c)"
    by simp
  have b: "length ''12345abcde'' \<noteq> 10 \<or> (\<exists>c \<in> set ''12345abcde''. \<not> isdigit_char c)"
    by (simp add: isdigit_char_def ascii_digit_def chr_in_def)
  have c: "length ''0123456789'' = 10 \<and> (\<forall>c \<in> set ''0123456789''. ascii_digit c)"
    by (simp add: ascii_digit_def chr_in_def)
  show ?thesis
    using Phone_construction [of "''12345''"] Phone_construction [of "''12345abcde''"]
      Phone_construction [of "''0123456789''"] a b c
    by blast
qed

text \<open>
  Claim C4 as stated fails: the string of ten superscript twos (U+00B2) holds no ASCII
  digit, and \<open>Phone\<close> accepts it, since \<open>str.isdigit\<close> is true of it.
\<close>

theorem Phone_superscript_counterexample:
  "\<not> ascii_digit (CHR 0xB2) \<and>
   Phone [CHR 0xB2, CHR 0xB2, CHR 0xB2, CHR 0xB2, CHR 0xB2, CHR 0xB2, CHR 0xB2, CHR 0xB2,
          CHR 0xB2, CHR 0xB2] =
   Inr [CHR 0xB2, CHR 0xB2, CHR 0xB2, CHR 0xB2, CHR 0xB2, CHR 0xB2, CHR 0xB2, CHR 0xB2,
        CHR 0xB2, CHR 0xB2]"
  by (simp add: Phone_eq str_isdigit_def isdigit_char_def ascii_digit_def chr_in_def)

subsection \<open>Parsing and formatting a birthday\<close>




lemma re_dot_simps [simp]:
  "re_dot [] = []"
  "re_dot (c # r) = (if c = CHR ''.'' then [([c], r)] else [])"
  by (auto simp: re_dot_def)

lemma then_dot_simps [simp]:
  "then_dot [] = []"
  "then_dot ((t, r) # ms) = map (\<lambda>(dot, r2). (t, r2)) (re_dot r) @ then_dot ms"
  "then_dot (xs @ ys) = then_dot xs @ then_dot ys"
  by (simp_all add: then_dot_def)







































section \<open>Properties of Record\<close>

lemma find_phone_loop_None: "find_phone_loop ps p = None \<longleftrightarrow> p \<notin> set ps"
  by (induction ps) auto

lemma find_phone_loop_Some: "find_phone_loop ps p = Some q \<longleftrightarrow> p \<in> set ps \<and> q = p"
  by (induction ps) auto

lemma find_phone_None: "find_phone p r = None \<longleftrightarrow> p \<notin> set (phones r)"
  by (simp add: find_phone_def find_phone_loop_None)

lemma find_phone_Some: "find_phone p r = Some q \<longleftrightarrow> p \<in> set (phones r) \<and> q = p"
  by (simp add: find_phone_def find_phone_loop_Some)

lemma add_phone_present:
  "raw \<in> set (phones r) \<Longrightarrow> add_phone raw r = (Inl (ValueError ''This phone is already added.''), r)"
  by (cases "find_phone raw r") (simp_all add: add_phone_def find_phone_None)

lemma add_phone_absent:
  "raw \<notin> set (phones r) \<Longrightarrow>
   add_phone raw r =
     (case Phone raw of Inl e \<Rightarrow> (Inl e, r) | Inr p \<Rightarrow> (Inr (), r\<lparr>phones := phones r @ [p]\<rparr>))"
  by (cases "find_phone raw r") (simp_all add: add_phone_def find_phone_Some)

text \<open>
  Claim C7. On a record whose phones all passed the validation of \<open>Phone\<close> (they are
  \<open>Phone\<close> objects), \<open>add_phone\<close> raises the error of a duplicate when the value is present,
  raises the validation error of \<open>Phone\<close> for an invalid value, and otherwise appends the
  value at the end; the record is unchanged after an error, and every successful call
  makes the list longer by exactly one.
\<close>

theorem add_phone_cases:
  assumes wf: "\<forall>p \<in> set (phones r). Phone p = Inr p"
  shows "(raw \<in> set (phones r) \<longrightarrow>
            add_phone raw r = (Inl (ValueError ''This phone is already added.''), r)) \<and>
         (\<forall>e. Phone raw = Inl e \<longrightarrow> add_phone raw r = (Inl e, r)) \<and>
         (raw \<notin> set (phones r) \<and> Phone raw = Inr raw \<longrightarrow>
            add_phone raw r = (Inr (), r\<lparr>phones := phones r @ [raw]\<rparr>)) \<and>
         (\<forall>r'. add_phone raw r = (Inr (), r') \<longrightarrow>
            phones r' = phones r @ [raw] \<and> length (phones r') = length (phones r) + 1)"
proof (intro conjI allI impI)
  assume "raw \<in> set (phones r)"
  then show "add_phone raw r = (Inl (ValueError ''This phone is already added.''), r)"
    by (rule add_phone_present)
next
  fix e assume e: "Phone raw = Inl e"
  with wf have "raw \<notin> set (phones r)" by auto
  with e show "add_phone raw r = (Inl e, r)"
    by (simp add: add_phone_absent)
next
  assume "raw \<notin> set (phones r) \<and> Phone raw = Inr raw"
  then show "add_phone raw r = (Inr (), r\<lparr>phones := phones r @ [raw]\<rparr>)"
    by (simp add: add_phone_absent)
next
  fix r' assume ok: "add_phone raw r = (Inr (), r')"
  have absent: "raw \<notin> set (phones r)"
  proof
    assume "raw \<in> set (phones r)"
    from add_phone_present [OF this] ok show False by simp
  qed
  from ok absent have "r' = r\<lparr>phones := phones r @ [raw]\<rparr>"
    by (auto simp: add_phone_absent split: sum.splits dest: Phone_Inr)
  then show "phones r' = phones r @ [raw]" by simp
  then show "length (phones r') = length (phones r) + 1" by simp
qed

text \<open>The three cases of C7 on a record with one phone.\<close>

theorem add_phone_cases_witness:
  "add_phone ''1111111111'' \<lparr>name = ''Bob'', phones = [''1111111111''], birthday = None\<rparr> =
     (Inl (ValueError ''This phone is already added.''),
      \<lparr>name = ''Bob'', phones = [''1111111111''], birthday = None\<rparr>) \<and>
   add_phone ''12ab'' \<lparr>name = ''Bob'', phones = [''1111111111''], birthday = None\<rparr> =
     (Inl (ValueError ''Phone must contain only digits.''),
      \<lparr>name = ''Bob'', phones = [''1111111111''], birthday = None\<rparr>) \<and>
   add_phone ''2222222222'' \<lparr>name = ''Bob'', phones = [''1111111111''], birthday = None\<rparr> =
     (Inr (), \<lparr>name = ''Bob'', phones = [''1111111111'', ''2222222222''], birthday = None\<rparr>)"
proof -
  let ?r = "\<lparr>name = ''Bob'', phones = [''1111111111''], birthday = None\<rparr>"
  have d: "str_isdigit ''1111111111''" "str_isdigit ''2222222222''" "\<not> str_isdigit ''12ab''"
    by (simp_all add: str_isdigit_def isdigit_char_def ascii_digit_def chr_in_def)
  have wf: "\<forall>p \<in> set (phones ?r). Phone p = Inr p"
    by (simp add: Phone_eq d)
  have bad: "Phone ''12ab'' = Inl (ValueError ''Phone must contain only digits.'')"
    by (simp add: Phone_eq d)
  have good: "Phone ''2222222222'' = Inr ''2222222222''"
    by (simp add: Phone_eq d)
  show ?thesis
    using add_phone_cases [OF wf, of "''1111111111''"] add_phone_cases [OF wf, of "''12ab''"]
      add_phone_cases [OF wf, of "''2222222222''"] bad good
    by simp
qed

lemma edit_phone_loop_absent:
  "old \<notin> set ps \<Longrightarrow> edit_phone_loop i ps old new r = (Inr False, r)"
  by (induction ps arbitrary: i) auto

lemma edit_phone_loop_present:
  "old \<in> set ps \<Longrightarrow>
   \<exists>k < length ps. ps ! k = old \<and> (\<forall>j < k. ps ! j \<noteq> old) \<and>
     edit_phone_loop i ps old new r =
       (case Phone new of
          Inl e \<Rightarrow> (Inl e, r)
        | Inr p \<Rightarrow> (Inr True, r\<lparr>phones := (phones r)[i + k := p]\<rparr>))"
proof (induction ps arbitrary: i)
  case Nil
  then show ?case by simp
next
  case (Cons a ps)
  show ?case
  proof (cases "a = old")
    case True
    then show ?thesis
      by (intro exI [of _ 0]) (simp split: sum.splits)
  next
    case False
    with Cons.prems have "old \<in> set ps" by simp
    from Cons.IH [OF this, of "Suc i"] obtain k where
      k: "k < length ps" "ps ! k = old" "\<forall>j < k. ps ! j \<noteq> old"
      "edit_phone_loop (Suc i) ps old new r =
        (case Phone new of
           Inl e \<Rightarrow> (Inl e, r)
         | Inr p \<Rightarrow> (Inr True, r\<lparr>phones := (phones r)[Suc i + k := p]\<rparr>))"
      by blast
    have "\<forall>j < Suc k. (a # ps) ! j \<noteq> old"
      using False k(3) by (auto simp: nth_Cons split: nat.splits)
    with k False show ?thesis
      by (intro exI [of _ "Suc k"]) (simp split: sum.splits)
  qed
qed

text \<open>
  Claim C6, as the code has it. When \<open>old\<close> is present and \<open>new\<close> is invalid,
  \<open>edit_phone\<close> raises the validation error and the record is unchanged; when \<open>old\<close> is
  present and \<open>new\<close> is valid, the first entry equal to \<open>old\<close> becomes \<open>new\<close> at its position
  and the length is the same; when \<open>old\<close> is absent the call returns False and the record
  is unchanged, whatever \<open>new\<close> is.
\<close>

theorem edit_phone_cases:
  "(\<forall>e. old \<in> set (phones r) \<and> Phone new = Inl e \<longrightarrow> edit_phone old new r = (Inl e, r)) \<and>
   (old \<in> set (phones r) \<and> Phone new = Inr new \<longrightarrow>
      (\<exists>k < length (phones r). phones r ! k = old \<and> (\<forall>j < k. phones r ! j \<noteq> old) \<and>
         edit_phone old new r = (Inr True, r\<lparr>phones := (phones r)[k := new]\<rparr>)) \<and>
      length (phones (snd (edit_phone old new r))) = length (phones r)) \<and>
   (old \<notin> set (phones r) \<longrightarrow> edit_phone old new r = (Inr False, r))"
proof (intro conjI allI impI)
  fix e assume a: "old \<in> set (phones r) \<and> Phone new = Inl e"
  from edit_phone_loop_present [of old "phones r" 0 new r] a
  show "edit_phone old new r = (Inl e, r)"
    by (auto simp: edit_phone_def)
next
  assume a: "old \<in> set (phones r) \<and> Phone new = Inr new"
  from edit_phone_loop_present [of old "phones r" 0 new r] a
  show ex: "\<exists>k < length (phones r). phones r ! k = old \<and> (\<forall>j < k. phones r ! j \<noteq> old) \<and>
         edit_phone old new r = (Inr True, r\<lparr>phones := (phones r)[k := new]\<rparr>)"
    by (auto simp: edit_phone_def)
  then show "length (phones (snd (edit_phone old new r))) = length (phones r)"
    by auto
next
  assume "old \<notin> set (phones r)"
  then show "edit_phone old new r = (Inr False, r)"
    by (simp add: edit_phone_def edit_phone_loop_absent)
qed

text \<open>The three cases of C6 on a record with two phones.\<close>

theorem edit_phone_cases_witness:
  "edit_phone ''2222222222'' ''12ab''
     \<lparr>name = ''Bob'', phones = [''1111111111'', ''2222222222''], birthday = None\<rparr> =
     (Inl (ValueError ''Phone must contain only digits.''),
      \<lparr>name = ''Bob'', phones = [''1111111111'', ''2222222222''], birthday = None\<rparr>) \<and>
   edit_phone ''2222222222'' ''3333333333''
     \<lparr>name = ''Bob'', phones = [''1111111111'', ''2222222222''], birthday = None\<rparr> =
     (Inr True, \<lparr>name = ''Bob'', phones = [''1111111111'', ''3333333333''], birthday = None\<rparr>) \<and>
   edit_phone ''4444444444'' ''3333333333''
     \<lparr>name = ''Bob'', phones = [''1111111111'', ''2222222222''], birthday = None\<rparr> =
     (Inr False, \<lparr>name = ''Bob'', phones = [''1111111111'', ''2222222222''], birthday = None\<rparr>)"
proof -
  let ?r = "\<lparr>name = ''Bob'', phones = [''1111111111'', ''2222222222''], birthday = None\<rparr>"
  have d: "str_isdigit ''3333333333''" "\<not> str_isdigit ''12ab''"
    by (simp_all add: str_isdigit_def isdigit_char_def ascii_digit_def chr_in_def)
  have bad: "''2222222222'' \<in> set (phones ?r) \<and>
      Phone ''12ab'' = Inl (ValueError ''Phone must contain only digits.'')"
    by (simp add: Phone_eq d)
  have good: "''2222222222'' \<in> set (phones ?r) \<and> Phone ''3333333333'' = Inr ''3333333333''"
    by (simp add: Phone_eq d)
  have absent: "''4444444444'' \<notin> set (phones ?r)"
    by simp
  have one: "k < 2 \<Longrightarrow> [''1111111111'', ''2222222222''] ! k = ''2222222222'' \<Longrightarrow> k = 1" for k
    by (cases k) simp_all
  from edit_phone_cases [of "''2222222222''" ?r "''3333333333''"] good
  obtain k where k: "k < length (phones ?r)" "phones ?r ! k = ''2222222222''"
    "edit_phone ''2222222222'' ''3333333333'' ?r =
       (Inr True, ?r\<lparr>phones := (phones ?r)[k := ''3333333333'']\<rparr>)"
    by blast
  from k(1,2) have "k = 1"
    by (intro one) simp_all
  with k(3) have "edit_phone ''2222222222'' ''3333333333'' ?r =
       (Inr True, \<lparr>name = ''Bob'', phones = [''1111111111'', ''3333333333''], birthday = None\<rparr>)"
    by simp
  then show ?thesis
    using edit_phone_cases [of "''2222222222''" ?r "''12ab''"] bad
      edit_phone_cases [of "''4444444444''" ?r "''3333333333''"] absent
    by simp
qed

text \<open>
  Claim C6 as stated fails: with \<open>old\<close> absent, an invalid \<open>new\<close> is never validated, and
  the call returns False instead of raising.
\<close>

theorem edit_phone_absent_invalid_counterexample:
  "Phone ''abc'' = Inl (ValueError ''Phone must contain only digits.'') \<and>
   edit_phone ''1111111111'' ''abc'' (Record_init ''Bob'') = (Inr False, Record_init ''Bob'')"
  by (simp add: Phone_eq str_isdigit_def isdigit_char_def ascii_digit_def chr_in_def
      edit_phone_def Record_init_def)

text \<open>
  Claim C3 fails on the code: \<open>edit_phone\<close> does not look for the new value in the list,
  which \<open>add_phone\<close> does. After two adds and one edit the list holds the same value
  twice.
\<close>

theorem edit_phone_duplicates:
  "phones (apply_ops [AddPhone ''1111111111'', AddPhone ''2222222222'',
      EditPhone ''1111111111'' ''2222222222''] (Record_init ''Bob'')) =
   [''2222222222'', ''2222222222'']"
proof -
  have d: "str_isdigit ''1111111111''" "str_isdigit ''2222222222''"
    by (simp_all add: str_isdigit_def isdigit_char_def ascii_digit_def chr_in_def)
  show ?thesis
    by (simp add: Record_init_def add_phone_def find_phone_def edit_phone_def Phone_eq d)
qed

text \<open>The other operations keep the phones distinct.\<close>

lemma add_phone_distinct:
  "distinct (phones r) \<Longrightarrow> distinct (phones (snd (add_phone p r)))"
  by (cases "p \<in> set (phones r)")
    (auto simp: add_phone_present add_phone_absent split: sum.splits dest: Phone_Inr)

lemma remove_phone_loop_phones:
  "\<exists>k. phones (snd (remove_phone_loop i ps p r)) = phones r \<or>
       phones (snd (remove_phone_loop i ps p r)) = list_pop k (phones r)"
  by (induction ps arbitrary: i) auto

lemma distinct_list_pop: "distinct xs \<Longrightarrow> distinct (list_pop k xs)"
  unfolding list_pop_def
  by (metis append_take_drop_id distinct_append distinct_drop drop_Suc tl_drop set_take_disj_set_drop_if_distinct distinct_take in_set_dropD disjoint_iff set_drop_subset_set_drop subsetD le_SucI order_refl)

lemma remove_phone_distinct:
  "distinct (phones r) \<Longrightarrow> distinct (phones (snd (remove_phone p r)))"
  using remove_phone_loop_phones [of 0 "phones r" p r]
  by (auto simp: remove_phone_def distinct_list_pop)

lemma add_birthday_phones: "phones (snd (add_birthday b r)) = phones r"
  by (simp add: add_birthday_def split: sum.splits)

section \<open>Properties of AddressBook\<close>

lemma map_of_dict_setitem: "map_of (dict_setitem k v b) = (map_of b)(k \<mapsto> v)"
  by (induction b) (auto simp: fun_eq_iff)

lemma dict_setitem_twice: "dict_setitem k v2 (dict_setitem k v1 b) = dict_setitem k v2 b"
  by (induction b) auto

lemma keys_dict_setitem:
  "map fst (dict_setitem k v b) = (if k \<in> fst ` set b then map fst b else map fst b @ [k])"
  by (induction b) (auto simp: image_iff, force+)

lemma distinct_keys_dict_setitem:
  "distinct (map fst b) \<Longrightarrow> distinct (map fst (dict_setitem k v b))"
  by (simp add: keys_dict_setitem)

text \<open>
  Claim C8. After \<open>add_record\<close> of two records with the same name, the entry of that name
  is the second record, the entries of the other names are those of the directory before,
  and the directory is the one that the second call alone gives: nothing of the first
  record remains.
\<close>

theorem add_record_replaces:
  assumes "name r1 = name r2"
  shows "find_record (name r2) (add_record r2 (add_record r1 book)) = Some r2 \<and>
         (\<forall>n. n \<noteq> name r2 \<longrightarrow>
            find_record n (add_record r2 (add_record r1 book)) = find_record n book) \<and>
         add_record r2 (add_record r1 book) = add_record r2 book"
  using assms by (simp add: find_record_def add_record_def map_of_dict_setitem dict_setitem_twice)

text \<open>C8 on a directory that holds Anna, for two records named Bob.\<close>

theorem add_record_replaces_witness:
  "find_record ''Bob''
     (add_record \<lparr>name = ''Bob'', phones = [''2222222222''], birthday = None\<rparr>
        (add_record
           \<lparr>name = ''Bob'', phones = [''1111111111''],
            birthday = Some \<lparr>year = 2000, month = 5, day = 20\<rparr>\<rparr>
           [(''Anna'', \<lparr>name = ''Anna'', phones = [], birthday = None\<rparr>)])) =
   Some \<lparr>name = ''Bob'', phones = [''2222222222''], birthday = None\<rparr> \<and>
   find_record ''Anna''
     (add_record \<lparr>name = ''Bob'', phones = [''2222222222''], birthday = None\<rparr>
        (add_record
           \<lparr>name = ''Bob'', phones = [''1111111111''],
            birthday = Some \<lparr>year = 2000, month = 5, day = 20\<rparr>\<rparr>
           [(''Anna'', \<lparr>name = ''Anna'', phones = [], birthday = None\<rparr>)])) =
   Some \<lparr>name = ''Anna'', phones = [], birthday = None\<rparr>"
proof -
  let ?r1 = "\<lparr>name = ''Bob'', phones = [''1111111111''],
            birthday = Some \<lparr>year = 2000, month = 5, day = 20\<rparr>\<rparr>"
  let ?r2 = "\<lparr>name = ''Bob'', phones = [''2222222222''], birthday = None\<rparr>"
  let ?book = "[(''Anna'', \<lparr>name = ''Anna'', phones = [], birthday = None\<rparr>)]"
  have n: "name ?r1 = name ?r2" by simp
  from add_record_replaces [OF n, of ?book]
  have "find_record (name ?r2) (add_record ?r2 (add_record ?r1 ?book)) = Some ?r2"
    and "''Anna'' \<noteq> name ?r2 \<longrightarrow>
      find_record ''Anna'' (add_record ?r2 (add_record ?r1 ?book)) = find_record ''Anna'' ?book"
    by blast+
  then show ?thesis
    by (simp add: find_record_def)
qed

section \<open>Properties of the birthday query\<close>

lemma date_replace_year_valid:
  "valid_date (b\<lparr>year := y\<rparr>) \<Longrightarrow> date_replace_year b y = Inr (b\<lparr>year := y\<rparr>)"
  by (cases b) (simp add: date_replace_year_def new_date_def valid_date_def)

lemma date_replace_year_invalid:
  "\<not> valid_date (b\<lparr>year := y\<rparr>) \<Longrightarrow> \<exists>e. date_replace_year b y = Inl e"
  by (cases b) (auto simp: date_replace_year_def new_date_def valid_date_def)

lemma projectable_occurrence: "projectable today b \<Longrightarrow> valid_date (occurrence today b)"
  by (simp add: projectable_def occurrence_def)

lemma congratulation_add:
  assumes "valid_date occ"
  shows "(if WEEKEND_DAYS \<le> weekday occ then date_add_days occ (DAYS_IN_WEEK - weekday occ)
          else Inr occ) = Inr (congratulation occ)"
  using shift_no_overflow [OF assms]
  by (simp add: congratulation_def WEEKEND_DAYS_def DAYS_IN_WEEK_def)

lemma loop_step_None:
  "birthday r = None \<Longrightarrow>
   upcoming_loop today ((n, r) # items) acc = upcoming_loop today items (acc @ emitted today (n, r))"
  by (simp add: emitted_def)

lemma loop_step_projectable:
  assumes b: "birthday r = Some b" and p: "projectable today b"
  shows "upcoming_loop today ((n, r) # items) acc =
         upcoming_loop today items (acc @ emitted today (n, r))"
proof -
  from p have r1: "date_replace_year b (year today) = Inr (b\<lparr>year := year today\<rparr>)"
    by (simp add: projectable_def date_replace_year_valid)
  have r2: "(if date_less (b\<lparr>year := year today\<rparr>) today then date_replace_year b (year today + 1)
             else Inr (b\<lparr>year := year today\<rparr>)) = Inr (occurrence today b)"
    using p by (simp add: projectable_def occurrence_def date_replace_year_valid)
  note r3 = congratulation_add [OF projectable_occurrence [OF p]]
  show ?thesis
    by (simp add: b r1 r2 r3 emitted_def in_window_def DAYS_IN_WEEK_def Let_def
        del: upcoming_loop.simps add: upcoming_loop.simps(2) [of today n r items acc])
qed

lemma loop_step_not_projectable:
  assumes b: "birthday r = Some b" and p: "\<not> projectable today b"
  shows "\<exists>e. upcoming_loop today ((n, r) # items) acc = Inl e"
proof (cases "valid_date (b\<lparr>year := year today\<rparr>)")
  case False
  from date_replace_year_invalid [OF this] obtain e where
    "date_replace_year b (year today) = Inl e" ..
  then show ?thesis by (simp add: b)
next
  case True
  with p have l: "date_less (b\<lparr>year := year today\<rparr>) today"
    and i: "\<not> valid_date (b\<lparr>year := year today + 1\<rparr>)"
    by (simp_all add: projectable_def)
  from date_replace_year_invalid [OF i] obtain e where
    "date_replace_year b (year today + 1) = Inl e" ..
  with l show ?thesis by (simp add: b date_replace_year_valid [OF True])
qed

declare upcoming_loop.simps(2) [simp del]


lemma upcoming_loop_raises:
  assumes "(n, r) \<in> set book" "birthday r = Some b" "\<not> projectable today b"
  shows "\<exists>e. upcoming_loop today book acc = Inl e"
  using assms
proof (induction book arbitrary: acc)
  case Nil
  then show ?case by simp
next
  case (Cons item book)
  obtain n' r' where item: "item = (n', r')" by (cases item)
  show ?case
  proof (cases "birthday r'")
    case None
    with Cons item show ?thesis by (auto simp: loop_step_None)
  next
    case (Some b')
    show ?thesis
    proof (cases "projectable today b'")
      case True
      with Cons.prems Some item have "(n, r) \<in> set book" by auto
      from Cons.IH [OF this Cons.prems(2,3)] show ?thesis
        unfolding item loop_step_projectable [OF Some True] by blast
    next
      case False
      from loop_step_not_projectable [OF Some False] show ?thesis
        unfolding item by blast
    qed
  qed
qed

lemma upcoming_loop_subseq:
  "upcoming_loop today book acc = Inr out \<Longrightarrow>
   \<exists>ys. out = acc @ ys \<and> subseq (map entry_name ys) (map fst book)"
proof (induction book arbitrary: acc)
  case Nil
  then show ?case by simp
next
  case (Cons item book)
  obtain n r where item: "item = (n, r)" by (cases item)
  have all: "\<forall>b. birthday r = Some b \<longrightarrow> projectable today b"
  proof (intro allI impI, rule ccontr)
    fix b assume "birthday r = Some b" "\<not> projectable today b"
    from loop_step_not_projectable [OF this, of n book acc] Cons.prems item show False by auto
  qed
  have step: "upcoming_loop today ((n, r) # book) acc =
      upcoming_loop today book (acc @ emitted today (n, r))"
    using all by (cases "birthday r") (simp_all add: loop_step_None loop_step_projectable)
  with Cons.prems item have "upcoming_loop today book (acc @ emitted today (n, r)) = Inr out"
    by simp
  from Cons.IH [OF this] obtain ys where
    ys: "out = (acc @ emitted today (n, r)) @ ys" "subseq (map entry_name ys) (map fst book)"
    by blast
  have "subseq (map entry_name (emitted today (n, r) @ ys)) (map fst (item # book))"
    using ys(2) item by (auto simp: emitted_def split: option.splits)
  with ys(1) show ?case by auto
qed






text \<open>
  The years of a date end at 9999: on 1 June 9999 a birthday of 1 January has passed, the
  next year does not exist, and the query raises.
\<close>

lemma upcoming_birthdays_last_year:
  "isl (get_upcoming_birthdays
     \<lparr>clock_date = \<lparr>year = 9999, month = 6, day = 1\<rparr>, clock_seconds = 0\<rparr>
     [(''Anna'', \<lparr>name = ''Anna'', phones = [], birthday = Some \<lparr>year = 2000, month = 1, day = 1\<rparr>\<rparr>)])"
proof -
  let ?today = "\<lparr>year = 9999, month = 6, day = 1\<rparr>"
  let ?b = "\<lparr>year = 2000, month = 1, day = 1\<rparr>"
  let ?r = "\<lparr>name = ''Anna'', phones = [], birthday = Some ?b\<rparr>"
  have "\<not> projectable ?today ?b"
    by (simp add: projectable_def date_less_def valid_date_def MAXYEAR_def)
  from upcoming_loop_raises [of "''Anna''" ?r "[(''Anna'', ?r)]" ?b ?today "[]", OF _ _ this]
  obtain e where "upcoming_loop ?today [(''Anna'', ?r)] [] = Inl e"
    by auto
  then show ?thesis
    by (simp add: get_upcoming_birthdays_def date_today_def)
qed




text \<open>
  Claim C9. Whenever the query returns, the names of its entries are a subsequence of the
  names of the directory in its order of iteration; the result is not sorted by date or
  by name: with Cara (22 May) stored before Anna (20 May), Cara comes first.
\<close>

theorem upcoming_birthdays_order:
  "(\<forall>out. get_upcoming_birthdays c book = Inr out \<longrightarrow>
      subseq (map entry_name out) (map fst book)) \<and>
   get_upcoming_birthdays
     \<lparr>clock_date = \<lparr>year = 2024, month = 5, day = 17\<rparr>, clock_seconds = 0\<rparr>
     [(''Cara'', \<lparr>name = ''Cara'', phones = [], birthday = Some \<lparr>year = 2000, month = 5, day = 22\<rparr>\<rparr>),
      (''Anna'', \<lparr>name = ''Anna'', phones = [], birthday = Some \<lparr>year = 2000, month = 5, day = 20\<rparr>\<rparr>)] =
   Inr [\<lparr>entry_name = ''Cara'', congratulation_date = ''22.05.2024''\<rparr>,
        \<lparr>entry_name = ''Anna'', congratulation_date = ''20.05.2024''\<rparr>]"
proof (intro conjI allI impI)
  fix out assume "get_upcoming_birthdays c book = Inr out"
  from upcoming_loop_subseq [OF this [unfolded get_upcoming_birthdays_def]]
  show "subseq (map entry_name out) (map fst book)" by simp
next
  show "get_upcoming_birthdays
     \<lparr>clock_date = \<lparr>year = 2024, month = 5, day = 17\<rparr>, clock_seconds = 0\<rparr>
     [(''Cara'', \<lparr>name = ''Cara'', phones = [], birthday = Some \<lparr>year = 2000, month = 5, day = 22\<rparr>\<rparr>),
      (''Anna'', \<lparr>name = ''Anna'', phones = [], birthday = Some \<lparr>year = 2000, month = 5, day = 20\<rparr>\<rparr>)] =
   Inr [\<lparr>entry_name = ''Cara'', congratulation_date = ''22.05.2024''\<rparr>,
        \<lparr>entry_name = ''Anna'', congratulation_date = ''20.05.2024''\<rparr>]"
    by code_simp
qed

text \<open>C9 on a directory of three, of which the second is outside the window.\<close>

theorem upcoming_birthdays_order_witness:
  "get_upcoming_birthdays
     \<lparr>clock_date = \<lparr>year = 2024, month = 5, day = 17\<rparr>, clock_seconds = 0\<rparr>
     [(''Cara'', \<lparr>name = ''Cara'', phones = [], birthday = Some \<lparr>year = 2000, month = 5, day = 22\<rparr>\<rparr>),
      (''Drew'', \<lparr>name = ''Drew'', phones = [], birthday = Some \<lparr>year = 2001, month = 5, day = 25\<rparr>\<rparr>),
      (''Anna'', \<lparr>name = ''Anna'', phones = [], birthday = Some \<lparr>year = 2000, month = 5, day = 20\<rparr>\<rparr>)] =
     Inr [\<lparr>entry_name = ''Cara'', congratulation_date = ''22.05.2024''\<rparr>,
          \<lparr>entry_name = ''Anna'', congratulation_date = ''20.05.2024''\<rparr>] \<and>
   subseq [''Cara'', ''Anna''] [''Cara'', ''Drew'', ''Anna'']"
proof -
  let ?c = "\<lparr>clock_date = \<lparr>year = 2024, month = 5, day = 17\<rparr>, clock_seconds = 0\<rparr>"
  let ?book = "[(''Cara'', \<lparr>name = ''Cara'', phones = [], birthday = Some \<lparr>year = 2000, month = 5, day = 22\<rparr>\<rparr>),
      (''Drew'', \<lparr>name = ''Drew'', phones = [], birthday = Some \<lparr>year = 2001, month = 5, day = 25\<rparr>\<rparr>),
      (''Anna'', \<lparr>name = ''Anna'', phones = [], birthday = Some \<lparr>year = 2000, month = 5, day = 20\<rparr>\<rparr>)]"
  have run: "get_upcoming_birthdays ?c ?book =
     Inr [\<lparr>entry_name = ''Cara'', congratulation_date = ''22.05.2024''\<rparr>,
          \<lparr>entry_name = ''Anna'', congratulation_date = ''20.05.2024''\<rparr>]"
    by code_simp
  from upcoming_birthdays_order [of ?c ?book] run
  have "subseq (map entry_name [\<lparr>entry_name = ''Cara'', congratulation_date = ''22.05.2024''\<rparr>,
          \<lparr>entry_name = ''Anna'', congratulation_date = ''20.05.2024''\<rparr>]) (map fst ?book)"
    by blast
  with run show ?thesis by simp
qed

lemma leap_next: "is_leap y \<Longrightarrow> \<not> is_leap (y + 1)"
proof
  assume "is_leap y" "is_leap (y + 1)"
  then have "y mod 4 = 0" "(y + 1) mod 4 = 0" by (simp_all add: is_leap_def)
  then show False by presburger
qed

lemma feb29_not_projectable:
  assumes "month b = 2" "day b = 29"
    and "\<not> is_leap (year today) \<or> \<not> is_leap (projected_year today b)"
  shows "\<not> projectable today b"
proof (cases "is_leap (year today)")
  case False
  with assms(1,2) have "\<not> valid_date (b\<lparr>year := year today\<rparr>)"
    by (simp add: valid_date_def days_in_month_simps)
  then show ?thesis by (simp add: projectable_def)
next
  case True
  with assms(3) have l: "date_less (b\<lparr>year := year today\<rparr>) today"
    by (auto simp: projected_year_def split: if_splits)
  from leap_next [OF True] assms(1,2) have "\<not> valid_date (b\<lparr>year := year today + 1\<rparr>)"
    by (simp add: valid_date_def days_in_month_simps)
  with l show ?thesis by (simp add: projectable_def)
qed

text \<open>
  Claim C10. A stored birthday of 29 February makes the query raise whenever the year of
  today is not a leap year or the year the birthday is projected into is not a leap
  year; and such a state is reachable: \<open>add_birthday\<close> accepts 29.02.2000, and on 17 May
  2023 the query on the directory of this one record raises.
\<close>

theorem upcoming_birthdays_feb29_raises:
  "((n, r) \<in> set book \<and> birthday r = Some b \<and> month b = 2 \<and> day b = 29 \<and>
    (\<not> is_leap (year (date_today c)) \<or> \<not> is_leap (projected_year (date_today c) b)) \<longrightarrow>
      (\<exists>e. get_upcoming_birthdays c book = Inl e)) \<and>
   add_birthday ''29.02.2000'' (Record_init ''Bob'') =
     (Inr (), \<lparr>name = ''Bob'', phones = [], birthday = Some \<lparr>year = 2000, month = 2, day = 29\<rparr>\<rparr>) \<and>
   isl (get_upcoming_birthdays
     \<lparr>clock_date = \<lparr>year = 2023, month = 5, day = 17\<rparr>, clock_seconds = 0\<rparr>
     (add_record (snd (add_birthday ''29.02.2000'' (Record_init ''Bob''))) []))"
proof (intro conjI impI)
  assume a: "(n, r) \<in> set book \<and> birthday r = Some b \<and> month b = 2 \<and> day b = 29 \<and>
    (\<not> is_leap (year (date_today c)) \<or> \<not> is_leap (projected_year (date_today c) b))"
  then have "\<not> projectable (date_today c) b"
    by (intro feb29_not_projectable) simp_all
  with a upcoming_loop_raises [of n r book b "date_today c" "[]"]
  show "\<exists>e. get_upcoming_birthdays c book = Inl e"
    by (simp add: get_upcoming_birthdays_def)
next
  show "add_birthday ''29.02.2000'' (Record_init ''Bob'') =
     (Inr (), \<lparr>name = ''Bob'', phones = [], birthday = Some \<lparr>year = 2000, month = 2, day = 29\<rparr>\<rparr>)"
    by code_simp
next
  show "isl (get_upcoming_birthdays
     \<lparr>clock_date = \<lparr>year = 2023, month = 5, day = 17\<rparr>, clock_seconds = 0\<rparr>
     (add_record (snd (add_birthday ''29.02.2000'' (Record_init ''Bob''))) []))"
    by code_simp
qed

text \<open>
  C10 on 1 March 2024: the year of today is a leap year, the birthday has passed and is
  projected into 2025.
\<close>

theorem upcoming_birthdays_feb29_raises_witness:
  "\<exists>e. get_upcoming_birthdays
     \<lparr>clock_date = \<lparr>year = 2024, month = 3, day = 1\<rparr>, clock_seconds = 0\<rparr>
     [(''Anna'', \<lparr>name = ''Anna'', phones = [], birthday = Some \<lparr>year = 2000, month = 3, day = 4\<rparr>\<rparr>),
      (''Bob'', \<lparr>name = ''Bob'', phones = [], birthday = Some \<lparr>year = 2000, month = 2, day = 29\<rparr>\<rparr>)] =
     Inl e"
proof -
  let ?c = "\<lparr>clock_date = \<lparr>year = 2024, month = 3, day = 1\<rparr>, clock_seconds = 0\<rparr>"
  let ?bob = "\<lparr>name = ''Bob'', phones = [], birthday = Some \<lparr>year = 2000, month = 2, day = 29\<rparr>\<rparr>"
  let ?book = "[(''Anna'', \<lparr>name = ''Anna'', phones = [], birthday = Some \<lparr>year = 2000, month = 3, day = 4\<rparr>\<rparr>),
      (''Bob'', ?bob)]"
  have l: "\<not> is_leap (projected_year (date_today ?c) \<lparr>year = 2000, month = 2, day = 29\<rparr>)"
    by code_simp
  have "(''Bob'', ?bob) \<in> set ?book \<and> birthday ?bob = Some \<lparr>year = 2000, month = 2, day = 29\<rparr> \<and>
    month \<lparr>year = 2000, month = 2, day = 29\<rparr> = 2 \<and> day \<lparr>year = 2000, month = 2, day = 29\<rparr> = 29 \<and>
    (\<not> is_leap (year (date_today ?c)) \<or>
     \<not> is_leap (projected_year (date_today ?c) \<lparr>year = 2000, month = 2, day = 29\<rparr>))"
    using l by simp
  with upcoming_birthdays_feb29_raises [of "''Bob''" ?bob ?book "\<lparr>year = 2000, month = 2, day = 29\<rparr>" ?c]
  show ?thesis by blast
qed

end
